theory Spec2Isabelle
  imports Main
begin

section \<open>Values, objects and the heap\<close>

text \<open>
  JavaScript objects have identity: two objects with the same fields are still two
  objects. The store hands out references to its state object, so the model keeps an
  explicit heap. An address is an index into the heap; allocation appends, and nothing
  in the modelled code ever writes to an object that already exists.

  A value is a primitive or a reference. An object is the map from its own enumerable
  property names to their values. Numbers are modelled as integers.
\<close>

type_synonym addr = nat

datatype val = VUndefined | VNull | VBoolean bool | VNumber int | VString string | VRef addr

type_synonym obj = "string \<rightharpoonup> val"

type_synonym heap = "obj list"

definition deref :: "heap \<Rightarrow> addr \<Rightarrow> obj" where
  "deref h a = (if a < length h then h ! a else Map.empty)"

text \<open>Property read \<open>o[k]\<close>: \<open>undefined\<close> when the property is absent.\<close>

definition get_field :: "obj \<Rightarrow> string \<Rightarrow> val" where
  "get_field ob k = (case ob k of None \<Rightarrow> VUndefined | Some v \<Rightarrow> v)"

text \<open>
  Object spread \<open>{ ...a, ...b }\<close>: the properties of \<open>a\<close>, overwritten and extended
  by the properties of \<open>b\<close>.
\<close>

definition spread :: "obj \<Rightarrow> obj \<Rightarrow> obj" where
  "spread a b = a ++ b"

text \<open>The shallow copy \<open>{ ...a }\<close>.\<close>

definition shallow_copy :: "obj \<Rightarrow> obj" where
  "shallow_copy a = spread Map.empty a"

text \<open>Decimal rendering of an array index, as the property key of a spread string.\<close>

function string_of_nat :: "nat \<Rightarrow> string" where
  "string_of_nat n =
     (if n < 10 then [''0123456789'' ! n]
      else string_of_nat (n div 10) @ [''0123456789'' ! (n mod 10)])"
  by pat_completeness auto
termination
  by (relation "measure (\<lambda>n. n)") auto

section \<open>Store core (createStore)\<close>

text \<open>
  A listener is a function reference; the natural number is its identity. What a listener
  does when it is called is outside the store: the parameter \<open>L\<close> of type \<open>lenv\<close>
  says, for each listener and each pair of arguments, whether the call throws.
  Listeners and middleware of the model do not call back into the store synchronously
  and do not write to existing objects; middleware may allocate new objects.
\<close>

type_synonym listener = nat

type_synonym lenv = "listener \<Rightarrow> heap \<Rightarrow> addr \<Rightarrow> addr \<Rightarrow> bool"

text \<open>
  A middleware call \<open>middlewareFn(result, prevState, setState)\<close> throws, or returns
  \<open>undefined\<close> (\<open>None\<close>) or a state reference, having allocated the listed objects.
  The third argument serves updates that a middleware schedules for later (throttle,
  debounce): each of those is a call of \<open>setState\<close> of its own.
\<close>

datatype mw_result = MwThrow | MwReturn "addr option" "obj list"

type_synonym middleware = "heap \<Rightarrow> addr \<Rightarrow> addr \<Rightarrow> mw_result"

text \<open>
  What an updater function does with the draft it is given: it throws; it returns
  nothing and leaves the draft untouched; it returns nothing after mutating the draft,
  whose top-level properties are then the given object; or it returns a state reference.
\<close>

datatype recipe_result =
    RThrow
  | RUntouched
  | RMutated obj "obj list"
  | RReturn addr "obj list"

type_synonym recipe = "heap \<Rightarrow> addr \<Rightarrow> recipe_result"

text \<open>Everything a caller can pass to \<open>setState\<close> at run time.\<close>

datatype updater =
    UFunction recipe
  | UObject obj
  | UNull
  | UUndefined
  | UBoolean bool
  | UNumber int
  | UString string

datatype exn = UpdaterThrew | MiddlewareThrew nat | ListenerThrew listener

datatype event = MiddlewareCall nat addr addr | ListenerCall listener addr addr

record store =
  state :: addr
  listeners :: "listener list"
  middleware :: "middleware list"

text \<open>
  \<open>listeners\<close> is a JavaScript \<open>Set\<close>: it iterates in insertion order and holds each
  member once. The list of the model is that order.
\<close>

definition createStore :: "heap \<Rightarrow> addr \<Rightarrow> middleware list \<Rightarrow> store \<times> heap" where
  "createStore h initialState mws =
     (\<lparr>state = length h, listeners = [], middleware = mws\<rparr>,
      h @ [shallow_copy (deref h initialState)])"

definition getState :: "store \<Rightarrow> addr" where
  "getState st = state st"

text \<open>
  Modelled from the spec: \<open>produce\<close> of the immer library, which is not part of the
  sources. The base object is never written to. A recipe that returns nothing yields the
  base itself when the draft is untouched and a fresh object when it was mutated; a
  recipe that returns a value yields that value.
\<close>

definition produce :: "heap \<Rightarrow> addr \<Rightarrow> recipe \<Rightarrow> exn + (addr \<times> heap)" where
  "produce h base r =
     (case r h base of
        RThrow \<Rightarrow> Inl UpdaterThrew
      | RUntouched \<Rightarrow> Inr (base, h)
      | RMutated content news \<Rightarrow> Inr (length (h @ news), (h @ news) @ [content])
      | RReturn a news \<Rightarrow> Inr (a, h @ news))"

text \<open>Own enumerable properties of the operand of a spread expression.\<close>

definition own_properties :: "updater \<Rightarrow> obj" where
  "own_properties u =
     (case u of
        UObject ob \<Rightarrow> ob
      | UString s \<Rightarrow>
          map_of (zip (map string_of_nat [0..<length s]) (map (\<lambda>c. VString [c]) s))
      | _ \<Rightarrow> Map.empty)"

text \<open>Lines 39-50: the loop over the middleware array, with the index of each call.\<close>

fun applyMiddleware ::
  "middleware list \<Rightarrow> nat \<Rightarrow> heap \<Rightarrow> addr \<Rightarrow> addr \<Rightarrow> (exn + addr) \<times> heap \<times> event list" where
  "applyMiddleware [] i h result prevState = (Inr result, h, [])"
| "applyMiddleware (middlewareFn # rest) i h result prevState =
     (case middlewareFn h result prevState of
        MwThrow \<Rightarrow> (Inl (MiddlewareThrew i), h, [MiddlewareCall i result prevState])
      | MwReturn middlewareResult news \<Rightarrow>
          (case applyMiddleware rest (Suc i) (h @ news)
                  (case middlewareResult of None \<Rightarrow> result | Some r \<Rightarrow> r) prevState of
             (res, h', tr) \<Rightarrow> (res, h', MiddlewareCall i result prevState # tr)))"

text \<open>Line 77: \<open>listeners.forEach((listener) => listener(state, prevState))\<close>.\<close>

fun notify :: "lenv \<Rightarrow> listener list \<Rightarrow> heap \<Rightarrow> addr \<Rightarrow> addr \<Rightarrow> exn option \<times> event list" where
  "notify L [] h s prevState = (None, [])"
| "notify L (l # ls) h s prevState =
     (if L l h s prevState then (Some (ListenerThrew l), [ListenerCall l s prevState])
      else (case notify L ls h s prevState of
              (res, tr) \<Rightarrow> (res, ListenerCall l s prevState # tr)))"

text \<open>
  Lines 54-66: \<open>prevState\<close> is allocated first, then the candidate next state is computed
  from the updater.
\<close>

definition candidate :: "store \<Rightarrow> heap \<Rightarrow> updater \<Rightarrow> exn + (addr \<times> heap)" where
  "candidate st h updater =
     (let h1 = h @ [shallow_copy (deref h (state st))] in
      case updater of
        UFunction r \<Rightarrow> produce h1 (state st) r
      | _ \<Rightarrow> Inr (length h1, h1 @ [spread (deref h1 (state st)) (own_properties updater)]))"

text \<open>
  \<open>setState\<close> returns whether it threw, the store, the heap and the calls it made, in
  order. The DevTools hook (off by default) only reports the state and is left out.
\<close>

definition setState ::
  "lenv \<Rightarrow> store \<Rightarrow> heap \<Rightarrow> updater \<Rightarrow> exn option \<times> store \<times> heap \<times> event list" where
  "setState L st h updater =
     (let prevState = length h in
      case candidate st h updater of
        Inl e \<Rightarrow> (Some e, st, h @ [shallow_copy (deref h (state st))], [])
      | Inr (nextState, h2) \<Rightarrow>
          (case (if length (middleware st) > 0
                 then applyMiddleware (middleware st) 0 h2 nextState prevState
                 else (Inr nextState, h2, [])) of
             (Inl e, h3, tr) \<Rightarrow> (Some e, st, h3, tr)
           | (Inr nextState', h3, tr) \<Rightarrow>
               (let st' = st\<lparr>state := nextState'\<rparr> in
                case notify L (listeners st') h3 (state st') prevState of
                  (res, tr2) \<Rightarrow> (res, st', h3, tr @ tr2))))"

definition subscribe :: "store \<Rightarrow> listener \<Rightarrow> store" where
  "subscribe st l =
     st\<lparr>listeners := (if l \<in> set (listeners st) then listeners st else listeners st @ [l])\<rparr>"

text \<open>The disposer returned by \<open>subscribe(l)\<close>: \<open>listeners.delete(l)\<close>.\<close>

definition unsubscribe :: "store \<Rightarrow> listener \<Rightarrow> store" where
  "unsubscribe st l = st\<lparr>listeners := removeAll l (listeners st)\<rparr>"

definition use :: "store \<Rightarrow> heap \<Rightarrow> (heap \<Rightarrow> addr \<Rightarrow> 'r) \<Rightarrow> 'r" where
  "use st h selector = selector h (state st)"

definition destroy :: "store \<Rightarrow> store" where
  "destroy st = st\<lparr>listeners := []\<rparr>"

text \<open>The calls recorded in a trace, by kind.\<close>

fun middleware_calls :: "event list \<Rightarrow> event list" where
  "middleware_calls [] = []"
| "middleware_calls (MiddlewareCall i n p # tr) = MiddlewareCall i n p # middleware_calls tr"
| "middleware_calls (ListenerCall l n p # tr) = middleware_calls tr"

fun notified :: "event list \<Rightarrow> listener list" where
  "notified [] = []"
| "notified (MiddlewareCall i n p # tr) = notified tr"
| "notified (ListenerCall l n p # tr) = l # notified tr"

fun nextState_arg :: "event \<Rightarrow> addr" where
  "nextState_arg (MiddlewareCall i n p) = n"
| "nextState_arg (ListenerCall l n p) = n"

fun prevState_arg :: "event \<Rightarrow> addr" where
  "prevState_arg (MiddlewareCall i n p) = p"
| "prevState_arg (ListenerCall l n p) = p"

text \<open>A middleware that never changes the candidate it is given (a logger, for one).\<close>

definition passes_through :: "middleware \<Rightarrow> bool" where
  "passes_through m =
     (\<forall>h n p. \<exists>news. m h n p = MwReturn None news \<or> m h n p = MwReturn (Some n) news)"

section \<open>Snapshot manager (createSnapshotManager)\<close>

text \<open>
  A snapshot holds the reference of its own copy of the state. The cursor
  \<open>currentIndex\<close>, the indices passed to \<open>applySnapshot\<close> and \<open>maxSnapshots\<close> are
  integers; the cursor is -1 while the history is empty.
\<close>

record snapshot =
  snapshot_state :: addr
  timestamp :: int
  description :: "string option"

record manager =
  snapshots :: "snapshot list"
  currentIndex :: int
  maxSnapshots :: int

text \<open>\<open>xs.slice(0, e)\<close>: a negative end counts from the end of the array.\<close>

definition slice0 :: "'a list \<Rightarrow> int \<Rightarrow> 'a list" where
  "slice0 xs e =
     (if e < 0 then take (nat (max (int (length xs) + e) 0)) xs else take (nat e) xs)"

text \<open>Lines 56-77. \<open>now\<close> is the value of \<open>Date.now()\<close>.\<close>

definition takeSnapshot ::
  "int \<Rightarrow> string option \<Rightarrow> store \<Rightarrow> heap \<Rightarrow> manager \<Rightarrow> heap \<times> manager" where
  "takeSnapshot now desc st h m =
     (let snapshot = \<lparr>snapshot_state = length h, timestamp = now, description = desc\<rparr>;
          h' = h @ [shallow_copy (deref h (getState st))];
          kept = (if currentIndex m < int (length (snapshots m)) - 1
                  then slice0 (snapshots m) (currentIndex m + 1)
                  else snapshots m);
          pushed = kept @ [snapshot];
          idx = int (length pushed) - 1
      in if int (length pushed) > maxSnapshots m
         then (h', m\<lparr>snapshots := tl pushed, currentIndex := idx - 1\<rparr>)
         else (h', m\<lparr>snapshots := pushed, currentIndex := idx\<rparr>))"

text \<open>Lines 80-85: the restoring update is \<open>store.setState(() => snapshots[index].state)\<close>.\<close>

definition applySnapshot ::
  "lenv \<Rightarrow> int \<Rightarrow> store \<Rightarrow> heap \<Rightarrow> manager \<Rightarrow>
     exn option \<times> store \<times> heap \<times> manager \<times> event list" where
  "applySnapshot L index st h m =
     (if index \<ge> 0 \<and> index < int (length (snapshots m))
      then (let m' = m\<lparr>currentIndex := index\<rparr> in
            case setState L st h
                   (UFunction (\<lambda>h0 draft. RReturn (snapshot_state (snapshots m' ! nat index)) [])) of
              (out, st', h', tr) \<Rightarrow> (out, st', h', m', tr))
      else (None, st, h, m, []))"

definition clearSnapshots :: "manager \<Rightarrow> manager" where
  "clearSnapshots m = m\<lparr>snapshots := [], currentIndex := - 1\<rparr>"

definition canUndo :: "manager \<Rightarrow> bool" where
  "canUndo m = (currentIndex m > 0)"

definition canRedo :: "manager \<Rightarrow> bool" where
  "canRedo m = (currentIndex m < int (length (snapshots m)) - 1)"

definition undo ::
  "lenv \<Rightarrow> store \<Rightarrow> heap \<Rightarrow> manager \<Rightarrow> exn option \<times> store \<times> heap \<times> manager \<times> event list" where
  "undo L st h m =
     (if canUndo m then applySnapshot L (currentIndex m - 1) st h m else (None, st, h, m, []))"

definition redo ::
  "lenv \<Rightarrow> store \<Rightarrow> heap \<Rightarrow> manager \<Rightarrow> exn option \<times> store \<times> heap \<times> manager \<times> event list" where
  "redo L st h m =
     (if canRedo m then applySnapshot L (currentIndex m + 1) st h m else (None, st, h, m, []))"

text \<open>
  Construction: the option \<open>maxSnapshots\<close> defaults to 100, the history starts empty with
  the cursor at -1, and one snapshot is taken at once. A firing of the auto-snapshot
  timer is one more call of \<open>takeSnapshot\<close>.
\<close>

definition createSnapshotManager ::
  "int \<Rightarrow> store \<Rightarrow> heap \<Rightarrow> int option \<Rightarrow> heap \<times> manager" where
  "createSnapshotManager now st h maxOpt =
     takeSnapshot now (Some ''Initial state'') st h
       \<lparr>snapshots = [], currentIndex = - 1,
        maxSnapshots = (case maxOpt of None \<Rightarrow> 100 | Some n \<Rightarrow> n)\<rparr>"

text \<open>The operations a client can perform on a store with its snapshot manager.\<close>

datatype operation =
    TakeSnapshot int "string option"
  | ApplySnapshot int
  | Undo
  | Redo
  | ClearSnapshots
  | SetState updater

fun exec :: "lenv \<Rightarrow> operation \<Rightarrow> store \<times> heap \<times> manager \<Rightarrow> store \<times> heap \<times> manager" where
  "exec L (TakeSnapshot now desc) (st, h, m) =
     (case takeSnapshot now desc st h m of (h', m') \<Rightarrow> (st, h', m'))"
| "exec L (ApplySnapshot index) (st, h, m) =
     (case applySnapshot L index st h m of (out, st', h', m', tr) \<Rightarrow> (st', h', m'))"
| "exec L Undo (st, h, m) =
     (case undo L st h m of (out, st', h', m', tr) \<Rightarrow> (st', h', m'))"
| "exec L Redo (st, h, m) =
     (case redo L st h m of (out, st', h', m', tr) \<Rightarrow> (st', h', m'))"
| "exec L ClearSnapshots (st, h, m) = (st, h, clearSnapshots m)"
| "exec L (SetState u) (st, h, m) =
     (case setState L st h u of (out, st', h', tr) \<Rightarrow> (st', h', m))"


section \<open>Memoized selectors (derived, createSelector)\<close>

text \<open>
  A selector reads the heap through the state reference it is given. An equality
  function compares two values; it may look at the objects they refer to.
\<close>

type_synonym selector = "heap \<Rightarrow> addr \<Rightarrow> val"

type_synonym equality = "heap \<Rightarrow> val \<Rightarrow> val \<Rightarrow> bool"

text \<open>Array read \<open>xs[i]\<close>: \<open>undefined\<close> out of range.\<close>

definition js_nth :: "val list \<Rightarrow> nat \<Rightarrow> val" where
  "js_nth xs i = (if i < length xs then xs ! i else VUndefined)"

text \<open>
  \<open>shallowEqual\<close> (selector.ts, lines 24-56): \<open>Object.is\<close>, or two objects with the same
  number of keys where every key of the first is a key of the second with an identical
  value.
\<close>

definition shallowEqual :: equality where
  "shallowEqual h a b =
     (if a = b then True
      else (case (a, b) of
              (VRef x, VRef y) \<Rightarrow>
                (if card (dom (deref h x)) \<noteq> card (dom (deref h y)) then False
                 else (\<forall>key\<in>dom (deref h x).
                         key \<in> dom (deref h y) \<and> deref h x key = deref h y key))
            | _ \<Rightarrow> False))"




text \<open>The variables closed over by the selector that \<open>createSelector\<close> returns.\<close>

record selector_cache =
  sel_lastState :: "addr option"
  sel_lastResult :: val
  sel_lastDeps :: "val list"

datatype js_error = ReferenceError string

definition depsChanged :: "val list \<Rightarrow> val list \<Rightarrow> bool" where
  "depsChanged lastDeps newDeps =
     (if length lastDeps \<noteq> length newDeps then True
      else list_ex (\<lambda>i. js_nth lastDeps i \<noteq> js_nth newDeps i) [0..<length newDeps])"

definition createSelector_init :: "val list \<Rightarrow> selector_cache" where
  "createSelector_init deps =
     \<lparr>sel_lastState = None, sel_lastResult = VUndefined, sel_lastDeps = deps\<rparr>"

text \<open>
  One call of the selector returned by \<open>createSelector(selectorFn, {equalityFn, deps})\<close>
  (selector.ts, lines 85-112). \<open>deps\<close> is an array of values fixed at creation. Line 96
  calls \<open>selector\<close>, which is not the parameter \<open>selectorFn\<close>: \<open>free_selector\<close> is what
  that name is bound to where the code runs, and nothing in the sources binds it.
\<close>

definition createSelector ::
  "selector option \<Rightarrow> selector \<Rightarrow> equality \<Rightarrow> val list \<Rightarrow> selector_cache \<Rightarrow> heap \<Rightarrow> addr \<Rightarrow>
     js_error + (val \<times> selector_cache)" where
  "createSelector free_selector selectorFn equalityFn deps c h s =
     (if sel_lastState c \<noteq> None \<and> sel_lastResult c \<noteq> VUndefined \<and>
         (sel_lastState c = Some s \<or> \<not> depsChanged (sel_lastDeps c) deps)
      then Inr (sel_lastResult c, c)
      else (case free_selector of
              None \<Rightarrow> Inl (ReferenceError ''selector'')
            | Some selector \<Rightarrow>
                (let result = selector h s in
                 if sel_lastResult c \<noteq> VUndefined \<and> equalityFn h (sel_lastResult c) result
                 then Inr (sel_lastResult c, c)
                 else Inr (result,
                           \<lparr>sel_lastState = Some s, sel_lastResult = result,
                            sel_lastDeps = deps\<rparr>))))"

section \<open>Example stores\<close>

text \<open>Listener environments: nobody throws; exactly the listener \<open>x\<close> throws.\<close>

definition quiet :: lenv where
  "quiet l h s p = False"

definition throwing :: "listener \<Rightarrow> lenv" where
  "throwing x l h s p = (l = x)"

definition count_is :: "int \<Rightarrow> obj" where
  "count_is n = [''count'' \<mapsto> VNumber n]"

text \<open>
  Middleware: one that returns \<open>nextState\<close> as the logger does, one that returns
  nothing, one that returns \<open>prevState\<close> as the cancelling branch of the throttle
  middleware does, one that returns a new object with one more field.
\<close>

definition pass_mw :: middleware where
  "pass_mw h n p = MwReturn (Some n) []"

definition noop_mw :: middleware where
  "noop_mw h n p = MwReturn None []"

definition cancel_mw :: middleware where
  "cancel_mw h n p = MwReturn (Some p) []"

definition stamp_mw :: middleware where
  "stamp_mw h n p =
     MwReturn (Some (length h)) [spread (deref h n) [''stamped'' \<mapsto> VBoolean True]]"

text \<open>The store \<open>createStore({count: 0}, {middleware: mws})\<close> and the heap it lives in.\<close>

definition counter_store :: "middleware list \<Rightarrow> store" where
  "counter_store mws = fst (createStore [count_is 0] 0 mws)"

definition counter_heap :: heap where
  "counter_heap = snd (createStore [count_is 0] 0 [])"

text \<open>What a caller sees after a call of \<open>setState\<close>.\<close>

definition outcome :: "exn option \<times> store \<times> heap \<times> event list \<Rightarrow> exn option" where
  "outcome r = fst r"

definition store_after :: "exn option \<times> store \<times> heap \<times> event list \<Rightarrow> store" where
  "store_after r = fst (snd r)"

definition heap_after :: "exn option \<times> store \<times> heap \<times> event list \<Rightarrow> heap" where
  "heap_after r = fst (snd (snd r))"

definition calls :: "exn option \<times> store \<times> heap \<times> event list \<Rightarrow> event list" where
  "calls r = snd (snd (snd r))"

definition state_after :: "exn option \<times> store \<times> heap \<times> event list \<Rightarrow> obj" where
  "state_after r = deref (heap_after r) (getState (store_after r))"

text \<open>
  The scenario \<open>takeSnapshot(); setState(u); takeSnapshot(); undo()\<close> on a store with its
  manager, and the state object that is current in such a system.
\<close>

definition round_trip ::
  "lenv \<Rightarrow> updater \<Rightarrow> store \<times> heap \<times> manager \<Rightarrow> store \<times> heap \<times> manager" where
  "round_trip L u s = fold (exec L) [TakeSnapshot 1 None, SetState u, TakeSnapshot 2 None, Undo] s"

definition current_state :: "store \<times> heap \<times> manager \<Rightarrow> obj" where
  "current_state s = (case s of (st, h, m) \<Rightarrow> deref h (getState st))"

text \<open>A store with one listener and its freshly constructed manager.\<close>

definition managed ::
  "middleware list \<Rightarrow> int \<Rightarrow> store \<times> heap \<times> manager" where
  "managed mws maxS =
     (case createSnapshotManager 0 (subscribe (counter_store mws) 7) counter_heap (Some maxS) of
        (h0, m0) \<Rightarrow> (subscribe (counter_store mws) 7, h0, m0))"



definition abc :: "int \<Rightarrow> int \<Rightarrow> obj" where
  "abc x y = [''a'' \<mapsto> VNumber x, ''b'' \<mapsto> VNumber y]"

definition abc_heap :: heap where
  "abc_heap = [abc 1 2, (abc 1 2)(''c'' \<mapsto> VNumber 4), (abc 1 7)(''c'' \<mapsto> VNumber 4)]"

section \<open>Basic facts\<close>

lemma shallow_copy_id: "shallow_copy a = a"
  by (simp add: shallow_copy_def spread_def)

lemma deref_append: "a < length h \<Longrightarrow> deref (h @ ext) a = deref h a"
  by (simp add: deref_def nth_append)

lemma deref_fresh: "deref (h @ ob # ext) (length h) = ob"
  by (simp add: deref_def nth_append)

lemma get_field_spread:
  "get_field (spread a b) k = (if k \<in> dom b then get_field b k else get_field a k)"
  by (auto simp: get_field_def spread_def map_add_def dom_def split: option.splits)

lemma result_collapse:
  "r = (outcome r, store_after r, heap_after r, calls r)"
  by (simp add: outcome_def store_after_def heap_after_def calls_def)

subsection \<open>The heap only grows\<close>

lemma produce_ext:
  "produce h base r = Inr (a, h') \<Longrightarrow> \<exists>ext. h' = h @ ext"
  by (auto simp: produce_def split: recipe_result.splits)

lemma candidate_ext:
  "candidate st h u = Inr (n, h2) \<Longrightarrow> \<exists>ext. h2 = h @ deref h (state st) # ext"
  by (cases u) (auto simp: candidate_def Let_def shallow_copy_id dest!: produce_ext)

lemma candidate_error: "candidate st h u = Inl e \<Longrightarrow> e = UpdaterThrew"
  by (cases u) (auto simp: candidate_def Let_def produce_def split: recipe_result.splits)

lemma candidate_non_function:
  assumes "\<forall>r. u \<noteq> UFunction r" and "state st < length h"
  shows "candidate st h u =
           Inr (Suc (length h),
                h @ [deref h (state st), spread (deref h (state st)) (own_properties u)])"
  using assms
  by (cases u) (simp_all add: candidate_def Let_def shallow_copy_id deref_append)

lemma applyMiddleware_Cons_return:
  "m h r p = MwReturn mr news \<Longrightarrow>
   applyMiddleware (m # ms) i h r p = (res, h', tr) \<Longrightarrow>
   \<exists>tr'. applyMiddleware ms (Suc i) (h @ news) (case mr of None \<Rightarrow> r | Some x \<Rightarrow> x) p
           = (res, h', tr')
         \<and> tr = MiddlewareCall i r p # tr'"
  by (auto split: prod.splits)

lemma applyMiddleware_ext:
  "applyMiddleware ms i h r p = (res, h', tr) \<Longrightarrow> \<exists>ext. h' = h @ ext"
proof (induction ms arbitrary: i h r tr)
  case Nil
  then show ?case by simp
next
  case (Cons m ms)
  show ?case
  proof (cases "m h r p")
    case MwThrow
    with Cons.prems show ?thesis by simp
  next
    case (MwReturn mr news)
    from applyMiddleware_Cons_return [OF this Cons.prems] Cons.IH show ?thesis by fastforce
  qed
qed

subsection \<open>The three ways a call of setState can go\<close>

lemma pipeline_eq:
  "(if length ms > 0 then applyMiddleware ms 0 h n p else (Inr n, h, []))
     = applyMiddleware ms 0 h n p"
  by (cases ms) simp_all

lemma setState_alt:
  "setState L st h u =
     (case candidate st h u of
        Inl e \<Rightarrow> (Some e, st, h @ [deref h (state st)], [])
      | Inr (n, h2) \<Rightarrow>
          (case applyMiddleware (middleware st) 0 h2 n (length h) of
             (Inl e, h3, tm) \<Rightarrow> (Some e, st, h3, tm)
           | (Inr n', h3, tm) \<Rightarrow>
               (case notify L (listeners st) h3 n' (length h) of
                  (res, tn) \<Rightarrow> (res, st\<lparr>state := n'\<rparr>, h3, tm @ tn))))"
  unfolding setState_def Let_def pipeline_eq shallow_copy_id
  by (simp split: sum.splits prod.splits)

lemma setState_cases:
  assumes "setState L st h u = (out, st', h', tr)"
  obtains
    (updater_threw) e where "candidate st h u = Inl e" "out = Some e" "st' = st" "tr = []"
      "h' = h @ [deref h (state st)]"
  | (middleware_threw) n h2 e tm where "candidate st h u = Inr (n, h2)"
      "applyMiddleware (middleware st) 0 h2 n (length h) = (Inl e, h', tm)"
      "out = Some e" "st' = st" "tr = tm"
  | (committed) n h2 n' tm tn where "candidate st h u = Inr (n, h2)"
      "applyMiddleware (middleware st) 0 h2 n (length h) = (Inr n', h', tm)"
      "notify L (listeners st) h' n' (length h) = (out, tn)"
      "st' = st\<lparr>state := n'\<rparr>" "tr = tm @ tn"
proof (cases "candidate st h u")
  case (Inl e)
  with assms have "out = Some e" "st' = st" "tr = []" "h' = h @ [deref h (state st)]"
    by (auto simp: setState_alt)
  with Inl show ?thesis by (rule updater_threw)
next
  case (Inr c)
  obtain n h2 where c: "c = (n, h2)" by (cases c)
  obtain res h3 tm where p: "applyMiddleware (middleware st) 0 h2 n (length h) = (res, h3, tm)"
    by (cases "applyMiddleware (middleware st) 0 h2 n (length h)")
  show ?thesis
  proof (cases res)
    case (Inl e)
    with assms Inr c p have "out = Some e" "st' = st" "h' = h3" "tr = tm"
      by (auto simp: setState_alt)
    with Inr c p Inl show ?thesis by (intro middleware_threw) simp_all
  next
    case r: (Inr n')
    obtain o2 tn where nt: "notify L (listeners st) h3 n' (length h) = (o2, tn)"
      by (cases "notify L (listeners st) h3 n' (length h)")
    from assms Inr c p r nt
    have "out = o2" "st' = st\<lparr>state := n'\<rparr>" "h' = h3" "tr = tm @ tn"
      by (auto simp: setState_alt)
    with Inr c p r nt show ?thesis by (intro committed) simp_all
  qed
qed

lemma setState_ext:
  "setState L st h u = (out, st', h', tr) \<Longrightarrow> \<exists>ext. h' = h @ deref h (state st) # ext"
  by (erule setState_cases) (auto dest!: candidate_ext applyMiddleware_ext)

subsection \<open>Traces\<close>

lemma middleware_calls_append:
  "middleware_calls (xs @ ys) = middleware_calls xs @ middleware_calls ys"
  by (induction xs rule: middleware_calls.induct) simp_all

lemma notified_append: "notified (xs @ ys) = notified xs @ notified ys"
  by (induction xs rule: notified.induct) simp_all

lemma applyMiddleware_events:
  "applyMiddleware ms i h r p = (res, h', tr) \<Longrightarrow>
     middleware_calls tr = tr \<and> notified tr = [] \<and> (\<forall>e\<in>set tr. prevState_arg e = p)"
proof (induction ms arbitrary: i h r tr)
  case Nil
  then show ?case by simp
next
  case (Cons m ms)
  show ?case
  proof (cases "m h r p")
    case MwThrow
    with Cons.prems show ?thesis by auto
  next
    case (MwReturn mr news)
    from applyMiddleware_Cons_return [OF this Cons.prems] Cons.IH show ?thesis by fastforce
  qed
qed

lemma applyMiddleware_error:
  "applyMiddleware ms i h r p = (Inl e, h', tr) \<Longrightarrow> \<exists>j. e = MiddlewareThrew j"
proof (induction ms arbitrary: i h r tr)
  case Nil
  then show ?case by simp
next
  case (Cons m ms)
  show ?case
  proof (cases "m h r p")
    case MwThrow
    with Cons.prems show ?thesis by auto
  next
    case (MwReturn mr news)
    from applyMiddleware_Cons_return [OF this Cons.prems] Cons.IH show ?thesis by fastforce
  qed
qed

lemma applyMiddleware_length:
  "applyMiddleware ms i h r p = (res, h', tr) \<Longrightarrow>
     length tr \<le> length ms \<and> (\<forall>x. res = Inr x \<longrightarrow> length tr = length ms)"
proof (induction ms arbitrary: i h r tr)
  case Nil
  then show ?case by simp
next
  case (Cons m ms)
  show ?case
  proof (cases "m h r p")
    case MwThrow
    with Cons.prems show ?thesis by auto
  next
    case (MwReturn mr news)
    from applyMiddleware_Cons_return [OF this Cons.prems] Cons.IH show ?thesis by fastforce
  qed
qed

text \<open>The loop, read from its last iteration.\<close>

lemma applyMiddleware_snoc:
  "applyMiddleware (ms @ [m]) i h r p =
     (case applyMiddleware ms i h r p of
        (Inl e, h', tr) \<Rightarrow> (Inl e, h', tr)
      | (Inr r', h', tr) \<Rightarrow>
          (case m h' r' p of
             MwThrow \<Rightarrow>
               (Inl (MiddlewareThrew (i + length ms)), h',
                tr @ [MiddlewareCall (i + length ms) r' p])
           | MwReturn mr news \<Rightarrow>
               (Inr (case mr of None \<Rightarrow> r' | Some x \<Rightarrow> x), h' @ news,
                tr @ [MiddlewareCall (i + length ms) r' p])))"
proof (induction ms arbitrary: i h r)
  case Nil
  show ?case by (simp split: mw_result.splits)
next
  case (Cons a ms)
  show ?case
    by (cases "a h r p") (simp_all add: Cons.IH split: prod.splits sum.splits mw_result.splits)
qed

lemma applyMiddleware_nth:
  "applyMiddleware ms i h r p = (res, h', tr) \<Longrightarrow> j < length tr \<Longrightarrow>
     \<exists>rj hj. applyMiddleware (take j ms) i h r p = (Inr rj, hj, take j tr)
           \<and> tr ! j = MiddlewareCall (i + j) rj p"
proof (induction ms arbitrary: i h r tr j)
  case Nil
  then show ?case by simp
next
  case (Cons m ms)
  show ?case
  proof (cases j)
    case 0
    with Cons.prems show ?thesis
      by (cases "m h r p") (auto split: prod.splits)
  next
    case (Suc k)
    show ?thesis
    proof (cases "m h r p")
      case MwThrow
      with Cons.prems Suc show ?thesis by auto
    next
      case (MwReturn mr news)
      from applyMiddleware_Cons_return [OF this Cons.prems(1)] obtain tr' where
        rest: "applyMiddleware ms (Suc i) (h @ news) (case mr of None \<Rightarrow> r | Some x \<Rightarrow> x) p
                 = (res, h', tr')"
        and tr: "tr = MiddlewareCall i r p # tr'" by blast
      from Cons.prems(2) Suc tr have "k < length tr'" by simp
      from Cons.IH [OF rest this] obtain rj hj where
        "applyMiddleware (take k ms) (Suc i) (h @ news) (case mr of None \<Rightarrow> r | Some x \<Rightarrow> x) p
           = (Inr rj, hj, take k tr')"
        "tr' ! k = MiddlewareCall (Suc i + k) rj p" by blast
      with MwReturn Suc tr show ?thesis by simp
    qed
  qed
qed

lemma applyMiddleware_passes_through:
  "\<forall>m\<in>set ms. passes_through m \<Longrightarrow> \<exists>h' tr. applyMiddleware ms i h r p = (Inr r, h', tr)"
proof (induction ms arbitrary: i h)
  case Nil
  show ?case by simp
next
  case (Cons m ms)
  from Cons.prems have "passes_through m" by simp
  then obtain news where m: "m h r p = MwReturn None news \<or> m h r p = MwReturn (Some r) news"
    unfolding passes_through_def by blast
  from Cons.prems have "\<forall>m\<in>set ms. passes_through m" by simp
  from Cons.IH [OF this, of "Suc i" "h @ news"] obtain h' tr where
    "applyMiddleware ms (Suc i) (h @ news) r p = (Inr r, h', tr)" by blast
  with m show ?case by auto
qed

lemma notify_events:
  "notify L ls h s p = (res, tr) \<Longrightarrow>
     middleware_calls tr = [] \<and> (\<forall>e\<in>set tr. prevState_arg e = p \<and> nextState_arg e = s)"
  by (induction ls arbitrary: res tr) (auto split: if_splits prod.splits)

lemma notify_error:
  "notify L ls h s p = (Some e, tr) \<Longrightarrow> \<exists>l. e = ListenerThrew l"
  by (induction ls arbitrary: tr) (auto split: if_splits prod.splits)

lemma setState_middleware_calls:
  assumes run: "setState L st h u = (out, st', h', tr)"
    and cand: "candidate st h u = Inr (nextState, h2)"
    and p: "applyMiddleware (middleware st) 0 h2 nextState (length h) = (res, h3, tm)"
  shows "middleware_calls tr = tm"
  using run
proof (cases rule: setState_cases)
  case updater_threw
  with cand show ?thesis by simp
next
  case (middleware_threw n h2' e tm')
  with cand p have "tm' = tm" by simp
  with middleware_threw applyMiddleware_events [OF p] show ?thesis by simp
next
  case (committed n h2' n' tm' tn)
  with cand p have "tm' = tm" by simp
  with committed applyMiddleware_events [OF p] notify_events [OF committed(3)]
  show ?thesis by (simp add: middleware_calls_append)
qed

lemma setState_committed_result:
  assumes run: "setState L st h u = (out, st', h', tr)"
    and cand: "candidate st h u = Inr (nextState, h2)"
    and ok: "out = None \<or> (\<exists>l. out = Some (ListenerThrew l))"
  shows "fst (applyMiddleware (middleware st) 0 h2 nextState (length h)) = Inr (getState st')"
  using run
proof (cases rule: setState_cases)
  case updater_threw
  with cand show ?thesis by simp
next
  case (middleware_threw n h2' e tm')
  from applyMiddleware_error [OF middleware_threw(2)] middleware_threw(3) ok
  show ?thesis by auto
next
  case (committed n h2' n' tm' tn)
  with cand show ?thesis by (simp add: getState_def)
qed

lemma setState_passes_through:
  assumes run: "setState L st h u = (out, st', h', tr)"
    and cand: "candidate st h u = Inr (n, h2)"
    and mw: "\<forall>m\<in>set (middleware st). passes_through m"
  shows "getState st' = n \<and> (out = None \<or> (\<exists>l. out = Some (ListenerThrew l)))"
proof -
  from applyMiddleware_passes_through [OF mw] obtain h3 tm where
    p: "applyMiddleware (middleware st) 0 h2 n (length h) = (Inr n, h3, tm)" by blast
  from run show ?thesis
  proof (cases rule: setState_cases)
    case updater_threw
    with cand show ?thesis by simp
  next
    case middleware_threw
    with cand p show ?thesis by simp
  next
    case (committed n0 h20 n' tm0 tn)
    with cand p have "n' = n" by simp
    moreover have "out = None \<or> (\<exists>l. out = Some (ListenerThrew l))"
      using notify_error [of L "listeners st" h' n' "length h" _ tn] committed(3)
      by (cases out) auto
    ultimately show ?thesis using committed by (simp add: getState_def)
  qed
qed

subsection \<open>Evaluating the examples\<close>

lemma counter_store_eq:
  "counter_store mws = \<lparr>state = 1, listeners = [], middleware = mws\<rparr>"
  by (simp add: counter_store_def createStore_def)

lemma counter_heap_eq: "counter_heap = [count_is 0, count_is 0]"
  by (simp add: counter_heap_def createStore_def shallow_copy_id deref_def)

lemmas eval_simps = counter_store_eq counter_heap_eq setState_alt candidate_def produce_def
  own_properties_def shallow_copy_id deref_def spread_def quiet_def throwing_def
  pass_mw_def noop_mw_def cancel_mw_def stamp_mw_def getState_def
  subscribe_def destroy_def unsubscribe_def outcome_def store_after_def heap_after_def
  calls_def state_after_def get_field_def count_is_def

section \<open>Claims about the store core\<close>

text \<open>
  C1 (amended). The claim as written holds for no store whose middleware changes the
  candidate: the cancelling middleware makes \<open>setState({count: 1})\<close> commit a state
  whose \<open>count\<close> is still 0. What holds: when every middleware of the store passes its
  \<open>nextState\<close> through (in particular when there is none), \<open>setState(u)\<close> with a plain
  object \<open>u\<close> commits a new state object that maps each key of \<open>u\<close> to the value \<open>u\<close>
  gives it and every other field to its value in the state before, and every object that
  existed before the call, the old state object among them, has the fields it had.
\<close>

theorem setState_object_shallow_merge:
  assumes run: "setState L st h (UObject u) = (out, st', h', tr)"
    and mw: "\<forall>m\<in>set (middleware st). passes_through m"
    and wf: "getState st < length h"
  shows "(\<forall>k. get_field (deref h' (getState st')) k =
              (if k \<in> dom u then get_field u k else get_field (deref h (getState st)) k))
       \<and> getState st' \<noteq> getState st
       \<and> (\<forall>a < length h. deref h' a = deref h a)"
proof -
  let ?s = "deref h (state st)"
  have cand: "candidate st h (UObject u)
                = Inr (Suc (length h), h @ [?s, spread ?s (own_properties (UObject u))])"
    using wf by (intro candidate_non_function) (simp_all add: getState_def)
  from setState_passes_through [OF run cand mw] have st': "state st' = Suc (length h)"
    by (simp add: getState_def)
  from run obtain n h2 where "candidate st h (UObject u) = Inr (n, h2)" "\<exists>ext. h' = h2 @ ext"
    by (cases rule: setState_cases) (use cand in \<open>auto dest: applyMiddleware_ext\<close>)
  with cand obtain ext where h': "h' = (h @ [?s, spread ?s u]) @ ext"
    by (auto simp: own_properties_def)
  have "deref h' (Suc (length h)) = spread ?s u"
    unfolding h' by (simp add: deref_def nth_append)
  moreover have "\<forall>a < length h. deref h' a = deref h a"
    unfolding h' by (simp add: deref_def nth_append)
  ultimately show ?thesis
    using wf by (simp add: st' get_field_spread getState_def)
qed

theorem setState_object_shallow_merge_witness:
  "getState (counter_store [pass_mw, noop_mw]) < length counter_heap
   \<and> passes_through pass_mw \<and> passes_through noop_mw
   \<and> get_field (state_after (setState quiet (counter_store [pass_mw, noop_mw]) counter_heap
                   (UObject (count_is 1)))) ''count'' = VNumber 1
   \<and> deref (heap_after (setState quiet (counter_store [pass_mw, noop_mw]) counter_heap
                   (UObject (count_is 1)))) 1 = count_is 0"
proof -
  let ?st = "counter_store [pass_mw, noop_mw]"
  let ?r = "setState quiet ?st counter_heap (UObject (count_is 1))"
  have mw: "\<forall>m\<in>set (middleware ?st). passes_through m"
    by (simp add: counter_store_eq passes_through_def pass_mw_def noop_mw_def)
  have wf: "getState ?st < length counter_heap"
    by (simp add: eval_simps)
  from setState_object_shallow_merge [OF result_collapse [of ?r] mw wf]
  have "get_field (state_after ?r) ''count'' = get_field (count_is 1) ''count''"
    and "deref (heap_after ?r) 1 = deref counter_heap 1"
    by (simp_all add: state_after_def counter_heap_eq count_is_def)
  then show ?thesis using mw wf by (simp add: eval_simps)
qed

theorem setState_object_shallow_merge_counterexample:
  "get_field (state_after (setState quiet (counter_store [cancel_mw]) counter_heap
                (UObject (count_is 1)))) ''count''
     \<noteq> get_field (count_is 1) ''count''"
  by (simp add: eval_simps)

text \<open>
  C3. With middleware \<open>m1..mk\<close> registered in this order, the \<open>i\<close>-th middleware call of
  a \<open>setState\<close> is the call of \<open>mi\<close>; its \<open>nextState\<close> is what the loop over
  \<open>m1..m(i-1)\<close> returns when started from the candidate of the update engine, its
  \<open>prevState\<close> is the copy made when the call began; when \<open>mi\<close> returns \<open>undefined\<close> the
  output after \<open>mi\<close> is the \<open>nextState\<close> it was given, otherwise what it returned; and
  when no middleware or updater throws, every middleware is called and the state that is
  committed is the output of the whole loop.
\<close>

theorem setState_middleware_order:
  assumes run: "setState L st h u = (out, st', h', tr)"
    and cand: "candidate st h u = Inr (nextState, h2)"
  shows "(\<forall>i < length (middleware_calls tr).
            i < length (middleware st) \<and>
            (\<exists>r hi tri.
               applyMiddleware (take i (middleware st)) 0 h2 nextState (length h) = (Inr r, hi, tri)
               \<and> middleware_calls tr ! i = MiddlewareCall i r (length h)
               \<and> (\<forall>news. (middleware st ! i) hi r (length h) = MwReturn None news \<longrightarrow>
                     fst (applyMiddleware (take (Suc i) (middleware st)) 0 h2 nextState (length h))
                       = Inr r)
               \<and> (\<forall>news r'. (middleware st ! i) hi r (length h) = MwReturn (Some r') news \<longrightarrow>
                     fst (applyMiddleware (take (Suc i) (middleware st)) 0 h2 nextState (length h))
                       = Inr r')))
       \<and> ((out = None \<or> (\<exists>l. out = Some (ListenerThrew l))) \<longrightarrow>
            length (middleware_calls tr) = length (middleware st)
            \<and> fst (applyMiddleware (middleware st) 0 h2 nextState (length h)) = Inr (getState st'))"
proof -
  obtain res h3 tm where
    p: "applyMiddleware (middleware st) 0 h2 nextState (length h) = (res, h3, tm)"
    by (cases "applyMiddleware (middleware st) 0 h2 nextState (length h)")
  have mc: "middleware_calls tr = tm"
    using run cand p by (rule setState_middleware_calls)
  have fin: "(out = None \<or> (\<exists>l. out = Some (ListenerThrew l))) \<longrightarrow> res = Inr (getState st')"
    using setState_committed_result [OF run cand] p by auto
  have per_call: "i < length (middleware st) \<and>
            (\<exists>r hi tri.
               applyMiddleware (take i (middleware st)) 0 h2 nextState (length h) = (Inr r, hi, tri)
               \<and> tm ! i = MiddlewareCall i r (length h)
               \<and> (\<forall>news. (middleware st ! i) hi r (length h) = MwReturn None news \<longrightarrow>
                     fst (applyMiddleware (take (Suc i) (middleware st)) 0 h2 nextState (length h))
                       = Inr r)
               \<and> (\<forall>news r'. (middleware st ! i) hi r (length h) = MwReturn (Some r') news \<longrightarrow>
                     fst (applyMiddleware (take (Suc i) (middleware st)) 0 h2 nextState (length h))
                       = Inr r'))"
    if i: "i < length tm" for i
  proof -
    from applyMiddleware_length [OF p] i have il: "i < length (middleware st)" by simp
    from applyMiddleware_nth [OF p i] obtain r hi where
      pre: "applyMiddleware (take i (middleware st)) 0 h2 nextState (length h)
              = (Inr r, hi, take i tm)"
      and ev: "tm ! i = MiddlewareCall i r (length h)" by auto
    have step: "take (Suc i) (middleware st) = take i (middleware st) @ [middleware st ! i]"
      using il by (rule take_Suc_conv_app_nth)
    have "\<forall>news. (middleware st ! i) hi r (length h) = MwReturn None news \<longrightarrow>
            fst (applyMiddleware (take (Suc i) (middleware st)) 0 h2 nextState (length h)) = Inr r"
      by (simp add: step applyMiddleware_snoc pre)
    moreover have "\<forall>news r'. (middleware st ! i) hi r (length h) = MwReturn (Some r') news \<longrightarrow>
            fst (applyMiddleware (take (Suc i) (middleware st)) 0 h2 nextState (length h)) = Inr r'"
      by (simp add: step applyMiddleware_snoc pre)
    ultimately show ?thesis using il pre ev by blast
  qed
  from applyMiddleware_length [OF p] fin
  have "(out = None \<or> (\<exists>l. out = Some (ListenerThrew l))) \<longrightarrow>
            length tm = length (middleware st)
            \<and> fst (applyMiddleware (middleware st) 0 h2 nextState (length h)) = Inr (getState st')"
    by (auto simp: p)
  with per_call show ?thesis unfolding mc by blast
qed

theorem setState_middleware_order_witness:
  "candidate (counter_store [stamp_mw, noop_mw]) counter_heap (UObject (count_is 1)) =
     Inr (3, [count_is 0, count_is 0, count_is 0, count_is 0 ++ count_is 1])
   \<and> calls (setState quiet (counter_store [stamp_mw, noop_mw]) counter_heap
              (UObject (count_is 1))) = [MiddlewareCall 0 3 2, MiddlewareCall 1 4 2]
   \<and> fst (applyMiddleware (take 1 [stamp_mw, noop_mw]) 0
            [count_is 0, count_is 0, count_is 0, count_is 0 ++ count_is 1] 3 2) = Inr 4
   \<and> fst (applyMiddleware [stamp_mw, noop_mw] 0
            [count_is 0, count_is 0, count_is 0, count_is 0 ++ count_is 1] 3 2) = Inr 4
   \<and> getState (store_after (setState quiet (counter_store [stamp_mw, noop_mw]) counter_heap
              (UObject (count_is 1)))) = 4"
proof -
  let ?st = "counter_store [stamp_mw, noop_mw]"
  let ?r = "setState quiet ?st counter_heap (UObject (count_is 1))"
  let ?h2 = "[count_is 0, count_is 0, count_is 0, count_is 0 ++ count_is 1]"
  have cand: "candidate ?st counter_heap (UObject (count_is 1)) = Inr (3, ?h2)"
    by (simp add: eval_simps)
  have tr: "calls ?r = [MiddlewareCall 0 3 2, MiddlewareCall 1 4 2]"
    and out: "outcome ?r = None"
    by (simp_all add: eval_simps)
  note T = setState_middleware_order [OF result_collapse [of ?r] cand]
  from T out have "fst (applyMiddleware (middleware ?st) 0 ?h2 3 (length counter_heap))
                     = Inr (getState (store_after ?r))"
    by simp
  moreover from T [THEN conjunct1, rule_format, of 1] tr
  have "\<exists>r. fst (applyMiddleware (take 1 (middleware ?st)) 0 ?h2 3 (length counter_heap)) = Inr r
          \<and> MiddlewareCall 1 4 2 = MiddlewareCall 1 r (length counter_heap)"
    by auto
  ultimately show ?thesis using cand tr
    by (simp add: eval_simps)
qed

text \<open>
  C4 (amended). No update description is ever rejected: the code has no
  \<open>InvalidUpdateError\<close> and no check of the update. With \<open>null\<close>, \<open>undefined\<close>, a boolean
  or a number the spread adds nothing, so the candidate is a fresh copy of the current
  state; the updater raises nothing; and in a store whose middleware pass the candidate
  through, that copy is committed as the new state (same fields, new object) and the
  call returns normally unless a listener throws.
\<close>

theorem setState_non_object_update:
  assumes run: "setState L st h u = (out, st', h', tr)"
    and u: "u \<in> {UNull, UUndefined} \<union> range UBoolean \<union> range UNumber"
    and wf: "getState st < length h"
  shows "out \<noteq> Some UpdaterThrew
       \<and> candidate st h u
           = Inr (Suc (length h), h @ [deref h (getState st), deref h (getState st)])
       \<and> ((\<forall>m\<in>set (middleware st). passes_through m) \<longrightarrow>
            (out = None \<or> (\<exists>l. out = Some (ListenerThrew l)))
            \<and> getState st' = Suc (length h)
            \<and> deref h' (getState st') = deref h (getState st))"
proof -
  let ?s = "deref h (state st)"
  from u have nf: "\<forall>r. u \<noteq> UFunction r" and own: "own_properties u = Map.empty"
    by (auto simp: own_properties_def)
  have cand: "candidate st h u = Inr (Suc (length h), h @ [?s, ?s])"
    using candidate_non_function [OF nf, of st h] wf by (simp add: own spread_def getState_def)
  have "out \<noteq> Some UpdaterThrew"
    using run
  proof (cases rule: setState_cases)
    case updater_threw
    with cand show ?thesis by simp
  next
    case middleware_threw
    from applyMiddleware_error [OF middleware_threw(2)] middleware_threw(3) show ?thesis by auto
  next
    case committed
    from committed(3) show ?thesis
      using notify_error [of L "listeners st" h' _ "length h" UpdaterThrew] by auto
  qed
  moreover have "(out = None \<or> (\<exists>l. out = Some (ListenerThrew l)))
            \<and> getState st' = Suc (length h)
            \<and> deref h' (getState st') = deref h (getState st)"
    if mw: "\<forall>m\<in>set (middleware st). passes_through m"
  proof -
    from setState_passes_through [OF run cand mw]
    have 1: "getState st' = Suc (length h)" "out = None \<or> (\<exists>l. out = Some (ListenerThrew l))"
      by simp_all
    from run obtain n h2 where "candidate st h u = Inr (n, h2)" "\<exists>ext. h' = h2 @ ext"
      by (cases rule: setState_cases) (use cand in \<open>auto dest: applyMiddleware_ext\<close>)
    with cand obtain ext where h': "h' = (h @ [?s, ?s]) @ ext" by auto
    have "deref h' (Suc (length h)) = ?s"
      unfolding h' by (simp add: deref_def nth_append)
    with 1 show ?thesis by (simp add: getState_def)
  qed
  ultimately show ?thesis using cand by (auto simp: getState_def)
qed

theorem setState_non_object_update_witness:
  "getState (counter_store [pass_mw]) < length counter_heap
   \<and> passes_through pass_mw
   \<and> outcome (setState quiet (counter_store [pass_mw]) counter_heap UUndefined) = None
   \<and> getState (store_after (setState quiet (counter_store [pass_mw]) counter_heap UUndefined)) = 3
   \<and> state_after (setState quiet (counter_store [pass_mw]) counter_heap UUndefined) = count_is 0"
proof -
  let ?st = "counter_store [pass_mw]"
  let ?r = "setState quiet ?st counter_heap UUndefined"
  have mw: "\<forall>m\<in>set (middleware ?st). passes_through m"
    by (simp add: counter_store_eq passes_through_def pass_mw_def)
  have wf: "getState ?st < length counter_heap"
    by (simp add: eval_simps)
  have u: "UUndefined \<in> {UNull, UUndefined} \<union> range UBoolean \<union> range UNumber"
    by simp
  from setState_non_object_update [OF result_collapse [of ?r] u wf] mw
  have "getState (store_after ?r) = Suc (length counter_heap)"
    and "state_after ?r = deref counter_heap (getState ?st)"
    by (simp_all add: eval_simps)
  then show ?thesis using mw wf by (simp add: eval_simps)
qed

theorem setState_rejects_null_counterexample:
  "outcome (setState quiet (counter_store []) counter_heap UNull) = None
   \<and> getState (store_after (setState quiet (counter_store []) counter_heap UNull)) = 3
   \<and> state_after (setState quiet (counter_store []) counter_heap UNull) = count_is 0
   \<and> outcome (setState quiet (counter_store []) counter_heap (UNumber 5)) = None
   \<and> state_after (setState quiet (counter_store []) counter_heap (UString ''ab'')) ''1''
       = Some (VString ''b'')"
  by (simp add: eval_simps)

text \<open>
  C10. On every call of \<open>setState\<close>, the \<open>prevState\<close> passed to every middleware and to
  every notified listener is one and the same object, allocated by this call: it has the
  fields of the state object that \<open>getState()\<close> returned before the call, and its
  reference differs from that object's and from the reference of every object that
  existed before the call, none of which the call changes.
\<close>

theorem setState_prevState_fresh_copy:
  assumes run: "setState L st h u = (out, st', h', tr)"
    and wf: "getState st < length h"
  shows "(\<forall>e\<in>set tr. prevState_arg e = length h)
       \<and> deref h' (length h) = deref h (getState st)
       \<and> length h \<noteq> getState st
       \<and> (\<forall>a < length h. length h \<noteq> a \<and> deref h' a = deref h a)"
proof -
  from setState_ext [OF run] obtain ext where h': "h' = h @ deref h (state st) # ext" by blast
  have all_calls: "\<forall>e\<in>set tr. prevState_arg e = length h"
    using run
  proof (cases rule: setState_cases)
    case updater_threw
    then show ?thesis by simp
  next
    case middleware_threw
    then show ?thesis using applyMiddleware_events by blast
  next
    case (committed n h2 n' tm tn)
    from applyMiddleware_events [OF committed(2)] notify_events [OF committed(3)] committed(5)
    show ?thesis by auto
  qed
  show ?thesis
    using all_calls wf by (simp add: h' deref_fresh deref_append getState_def)
qed

theorem setState_prevState_fresh_copy_witness:
  "getState (subscribe (subscribe (counter_store [pass_mw]) 7) 8) < length counter_heap
   \<and> calls (setState quiet (subscribe (subscribe (counter_store [pass_mw]) 7) 8) counter_heap
              (UObject (count_is 1)))
       = [MiddlewareCall 0 3 2, ListenerCall 7 3 2, ListenerCall 8 3 2]
   \<and> deref (heap_after (setState quiet (subscribe (subscribe (counter_store [pass_mw]) 7) 8)
              counter_heap (UObject (count_is 1)))) 2 = count_is 0
   \<and> getState (subscribe (subscribe (counter_store [pass_mw]) 7) 8) = 1"
proof -
  let ?st = "subscribe (subscribe (counter_store [pass_mw]) 7) 8"
  let ?r = "setState quiet ?st counter_heap (UObject (count_is 1))"
  have wf: "getState ?st < length counter_heap"
    by (simp add: eval_simps)
  from setState_prevState_fresh_copy [OF result_collapse [of ?r] wf]
  have "deref (heap_after ?r) (length counter_heap) = deref counter_heap (getState ?st)"
    by simp
  then show ?thesis using wf by (simp add: eval_simps)
qed

subsection \<open>Listeners\<close>


lemma notify_quiet:
  "\<forall>l\<in>set ls. \<not> L l h s p \<Longrightarrow>
     notify L ls h s p = (None, map (\<lambda>l. ListenerCall l s p) ls)"
  by (induction ls) simp_all


lemma notify_returns:
  "notify L ls h s p = (None, tr) \<Longrightarrow> notified tr = ls"
  by (induction ls arbitrary: tr) (auto split: if_splits prod.splits)

lemma subscribe_fields [simp]:
  "state (subscribe st l) = state st" "middleware (subscribe st l) = middleware st"
  by (simp_all add: subscribe_def)










subsection \<open>Destroying the store\<close>

lemma destroy_fields [simp]:
  "state (destroy st) = state st" "middleware (destroy st) = middleware st"
  "listeners (destroy st) = []"
  by (simp_all add: destroy_def)

lemma candidate_destroy: "candidate (destroy st) h u = candidate st h u"
  by (cases u) (simp_all add: candidate_def Let_def)

text \<open>
  C5 (amended). The store has no Destroyed state: \<open>destroy()\<close> empties the listener set
  and does nothing else. What holds: a \<open>setState\<close> on the destroyed store calls no
  listener and raises no listener's exception, but it is processed like any other
  update: it calls the same middleware and commits the same state into the same heap as
  the same call on the store before \<open>destroy()\<close>. A function subscribed after
  \<open>destroy()\<close> is a listener again.
\<close>

theorem destroy_only_clears_listeners:
  assumes run: "setState L (destroy st) h u = (out, st', h', tr)"
  shows "notified tr = []
       \<and> listeners st' = []
       \<and> (out = None \<or> out = Some UpdaterThrew \<or> (\<exists>j. out = Some (MiddlewareThrew j)))
       \<and> (\<forall>out2 st2 h2 tr2. setState L st h u = (out2, st2, h2, tr2) \<longrightarrow>
             getState st' = getState st2 \<and> h' = h2
             \<and> middleware_calls tr = middleware_calls tr2)
       \<and> (\<forall>l. listeners (subscribe (destroy st) l) = [l])"
proof -
  have same: "getState st' = getState st2 \<and> h' = h2 \<and> middleware_calls tr = middleware_calls tr2"
    if run2: "setState L st h u = (out2, st2, h2, tr2)" for out2 st2 h2 tr2
    using run
  proof (cases rule: setState_cases)
    case (updater_threw e)
    then have c: "candidate st h u = Inl e" by (simp add: candidate_destroy)
    from run2 c updater_threw show ?thesis
      by (cases rule: setState_cases) (simp_all add: getState_def)
  next
    case (middleware_threw n h2' e tm)
    then have c: "candidate st h u = Inr (n, h2')"
      and p: "applyMiddleware (middleware st) 0 h2' n (length h) = (Inl e, h', tm)"
      by (simp_all add: candidate_destroy)
    from run2 c p middleware_threw applyMiddleware_events [OF p] show ?thesis
      by (cases rule: setState_cases) (simp_all add: getState_def)
  next
    case (committed n h2' n' tm tn)
    then have c: "candidate st h u = Inr (n, h2')"
      and p: "applyMiddleware (middleware st) 0 h2' n (length h) = (Inr n', h', tm)"
      and tn: "tn = []"
      by (simp_all add: candidate_destroy)
    from run2 show ?thesis
    proof (cases rule: setState_cases)
      case (committed m g2 m' sm sn)
      with c p have "m' = n'" "h2 = h'" "sm = tm" by simp_all
      with committed \<open>st' = destroy st\<lparr>state := n'\<rparr>\<close> \<open>tr = tm @ tn\<close> tn
        applyMiddleware_events [OF p] notify_events [OF committed(3)]
      show ?thesis by (simp add: getState_def middleware_calls_append)
    qed (use c p in simp_all)
  qed
  have "notified tr = [] \<and> listeners st' = []
        \<and> (out = None \<or> out = Some UpdaterThrew \<or> (\<exists>j. out = Some (MiddlewareThrew j)))"
    using run
  proof (cases rule: setState_cases)
    case (updater_threw e)
    with candidate_error [of "destroy st" h u e] show ?thesis by simp
  next
    case (middleware_threw n h2 e tm)
    with applyMiddleware_error [OF middleware_threw(2)] applyMiddleware_events [OF middleware_threw(2)]
    show ?thesis by auto
  next
    case (committed n h2 n' tm tn)
    with applyMiddleware_events [OF committed(2)] show ?thesis by simp
  qed
  with same show ?thesis by (simp add: subscribe_def)
qed

theorem destroy_only_clears_listeners_witness:
  "calls (setState quiet (destroy (foldl subscribe (counter_store [pass_mw]) [7, 8])) counter_heap
            (UObject (count_is 1))) = [MiddlewareCall 0 3 2]
   \<and> calls (setState quiet (foldl subscribe (counter_store [pass_mw]) [7, 8]) counter_heap
            (UObject (count_is 1))) = [MiddlewareCall 0 3 2, ListenerCall 7 3 2, ListenerCall 8 3 2]
   \<and> heap_after (setState quiet (destroy (foldl subscribe (counter_store [pass_mw]) [7, 8]))
            counter_heap (UObject (count_is 1)))
       = heap_after (setState quiet (foldl subscribe (counter_store [pass_mw]) [7, 8])
            counter_heap (UObject (count_is 1)))
   \<and> getState (store_after (setState quiet
            (destroy (foldl subscribe (counter_store [pass_mw]) [7, 8]))
            counter_heap (UObject (count_is 1)))) = 3"
proof -
  let ?st = "foldl subscribe (counter_store [pass_mw]) [7, 8]"
  let ?r = "setState quiet (destroy ?st) counter_heap (UObject (count_is 1))"
  let ?r2 = "setState quiet ?st counter_heap (UObject (count_is 1))"
  from destroy_only_clears_listeners [OF result_collapse [of ?r]] result_collapse [of ?r2]
  have "heap_after ?r = heap_after ?r2"
    by blast
  moreover have "calls ?r = [MiddlewareCall 0 3 2]"
    "calls ?r2 = [MiddlewareCall 0 3 2, ListenerCall 7 3 2, ListenerCall 8 3 2]"
    "getState (store_after ?r) = 3"
    by (simp_all add: eval_simps)
  ultimately show ?thesis by simp
qed

theorem setState_after_destroy_counterexample:
  "outcome (setState quiet (destroy (subscribe (counter_store []) 7)) counter_heap
              (UObject (count_is 1))) = None
   \<and> state_after (setState quiet (destroy (subscribe (counter_store []) 7)) counter_heap
              (UObject (count_is 1))) ''count'' = Some (VNumber 1)
   \<and> deref counter_heap (getState (destroy (subscribe (counter_store []) 7))) ''count''
       = Some (VNumber 0)
   \<and> notified (calls (setState quiet (subscribe (destroy (subscribe (counter_store []) 7)) 7)
              counter_heap (UObject (count_is 1)))) = [7]"
  by (simp add: eval_simps)

section \<open>Claims about the snapshot manager\<close>

subsection \<open>Each operation keeps the cursor valid\<close>

lemma length_slice0: "length (slice0 xs e) \<le> length xs"
  by (auto simp: slice0_def)


lemma takeSnapshot_manager:
  assumes "takeSnapshot now desc st h m = (h', m')"
  obtains kept where "length kept \<le> length (snapshots m)"
    and "kept = (if currentIndex m < int (length (snapshots m)) - 1
                 then slice0 (snapshots m) (currentIndex m + 1) else snapshots m)"
    and "h' = h @ [deref h (state st)]"
    and "maxSnapshots m' = maxSnapshots m"
    and "int (length kept) + 1 > maxSnapshots m \<Longrightarrow>
           snapshots m' = tl (kept @ [\<lparr>snapshot_state = length h, timestamp = now, description = desc\<rparr>])
           \<and> currentIndex m' = int (length kept) - 1"
    and "\<not> int (length kept) + 1 > maxSnapshots m \<Longrightarrow>
           snapshots m' = kept @ [\<lparr>snapshot_state = length h, timestamp = now, description = desc\<rparr>]
           \<and> currentIndex m' = int (length kept)"
proof -
  let ?kept = "if currentIndex m < int (length (snapshots m)) - 1
               then slice0 (snapshots m) (currentIndex m + 1) else snapshots m"
  have "length ?kept \<le> length (snapshots m)"
    by (simp add: length_slice0)
  moreover from assms have "h' = h @ [deref h (state st)]" "maxSnapshots m' = maxSnapshots m"
    by (auto simp: takeSnapshot_def Let_def shallow_copy_id getState_def split: if_splits)
  moreover from assms have "int (length ?kept) + 1 > maxSnapshots m \<Longrightarrow>
           snapshots m' = tl (?kept @ [\<lparr>snapshot_state = length h, timestamp = now, description = desc\<rparr>])
           \<and> currentIndex m' = int (length ?kept) - 1"
    by (auto simp: takeSnapshot_def Let_def split: if_splits)
  moreover from assms have "\<not> int (length ?kept) + 1 > maxSnapshots m \<Longrightarrow>
           snapshots m' = ?kept @ [\<lparr>snapshot_state = length h, timestamp = now, description = desc\<rparr>]
           \<and> currentIndex m' = int (length ?kept)"
    by (auto simp: takeSnapshot_def Let_def split: if_splits)
  ultimately show ?thesis using that by blast
qed








subsection \<open>Undo and redo\<close>

lemma setState_fields:
  "setState L st h u = (out, st', h', tr) \<Longrightarrow>
     listeners st' = listeners st \<and> middleware st' = middleware st"
  by (erule setState_cases) simp_all

lemma setState_returned_notified:
  "setState L st h u = (None, st', h', tr) \<Longrightarrow> notified tr = listeners st"
proof (erule setState_cases)
  fix n h2 n' tm tn
  assume "applyMiddleware (middleware st) 0 h2 n (length h) = (Inr n', h', tm)"
    and "notify L (listeners st) h' n' (length h) = (None, tn)" and "tr = tm @ tn"
  with applyMiddleware_events [of "middleware st" 0 h2 n "length h" "Inr n'" h' tm]
    notify_returns [of L "listeners st" h' n' "length h" tn]
  show ?thesis by (simp add: notified_append)
qed simp_all

lemma applySnapshot_restores:
  assumes ap: "applySnapshot L index st h m = (out, st', h', m', tr)"
    and idx: "0 \<le> index" "index < int (length (snapshots m))"
    and mw: "\<forall>x\<in>set (middleware st). passes_through x"
  shows "getState st' = snapshot_state (snapshots m ! nat index)
       \<and> (\<exists>ext. h' = h @ ext)
       \<and> m' = m\<lparr>currentIndex := index\<rparr>
       \<and> middleware st' = middleware st \<and> listeners st' = listeners st
       \<and> length (middleware_calls tr) = length (middleware st)
       \<and> (out = None \<longrightarrow> notified tr = listeners st)"
proof -
  let ?a = "snapshot_state (snapshots m ! nat index)"
  let ?u = "UFunction (\<lambda>h0 draft. RReturn ?a [])"
  from ap idx have run: "setState L st h ?u = (out, st', h', tr)"
    and m': "m' = m\<lparr>currentIndex := index\<rparr>"
    by (auto simp: applySnapshot_def Let_def split: prod.splits)
  have cand: "candidate st h ?u = Inr (?a, h @ [deref h (state st)])"
    by (simp add: candidate_def produce_def shallow_copy_id)
  from applyMiddleware_passes_through [OF mw] obtain h3 tm where
    p: "applyMiddleware (middleware st) 0 (h @ [deref h (state st)]) ?a (length h) = (Inr ?a, h3, tm)"
    by blast
  from setState_middleware_calls [OF run cand p] applyMiddleware_length [OF p]
  have "length (middleware_calls tr) = length (middleware st)" by simp
  moreover from setState_passes_through [OF run cand mw] have "getState st' = ?a" by simp
  moreover from setState_ext [OF run] have "\<exists>ext. h' = h @ ext" by auto
  moreover have "out = None \<longrightarrow> notified tr = listeners st"
    using run setState_returned_notified by blast
  ultimately show ?thesis using m' setState_fields [OF run] by simp
qed

lemma takeSnapshot_appends:
  assumes take: "takeSnapshot now desc st h m = (h', m')"
    and bound: "1 \<le> maxSnapshots m"
  shows "h' = h @ [deref h (state st)] \<and> snapshots m' \<noteq> []
       \<and> last (snapshots m') = \<lparr>snapshot_state = length h, timestamp = now, description = desc\<rparr>
       \<and> currentIndex m' = int (length (snapshots m')) - 1
       \<and> maxSnapshots m' = maxSnapshots m"
  using take
proof (cases rule: takeSnapshot_manager)
  case (1 kept)
  show ?thesis
  proof (cases "int (length kept) + 1 > maxSnapshots m")
    case True
    with bound have "kept \<noteq> []" by auto
    with True 1 show ?thesis by (cases kept) auto
  next
    case False
    with 1 show ?thesis by auto
  qed
qed

lemma takeSnapshot_at_end:
  assumes take: "takeSnapshot now desc st h m = (h', m')"
    and bound: "2 \<le> maxSnapshots m"
    and ne: "snapshots m \<noteq> []"
    and at_end: "currentIndex m = int (length (snapshots m)) - 1"
  shows "2 \<le> length (snapshots m')
       \<and> snapshots m' ! (length (snapshots m') - 2) = last (snapshots m)
       \<and> snapshots m' ! (length (snapshots m') - 1)
           = \<lparr>snapshot_state = length h, timestamp = now, description = desc\<rparr>"
  using take
proof (cases rule: takeSnapshot_manager)
  case (1 kept)
  let ?new = "\<lparr>snapshot_state = length h, timestamp = now, description = desc\<rparr>"
  from 1(2) at_end have kept: "kept = snapshots m" by simp
  from ne have butlast: "snapshots m = butlast (snapshots m) @ [last (snapshots m)]" by simp
  show ?thesis
  proof (cases "int (length kept) + 1 > maxSnapshots m")
    case True
    with bound kept have len: "2 \<le> length (snapshots m)" by simp
    from True 1(5) kept have s: "snapshots m' = tl (snapshots m @ [?new])" by simp
    from len have "snapshots m' = tl (snapshots m) @ [?new]"
      unfolding s by (cases "snapshots m") simp_all
    moreover from len have "tl (snapshots m) \<noteq> []" "last (tl (snapshots m)) = last (snapshots m)"
      by (cases "snapshots m"; cases "tl (snapshots m)"; simp)+
    ultimately show ?thesis
      using len by (simp add: nth_append last_conv_nth)
  next
    case False
    with 1(6) kept have "snapshots m' = snapshots m @ [?new]" by simp
    with ne show ?thesis
      by (simp add: nth_append last_conv_nth Suc_leI)
  qed
qed

text \<open>
  C8 (amended). The round trip fails when \<open>maxSnapshots\<close> is 1 (the first snapshot is
  evicted by the second and \<open>undo()\<close> does nothing) and when a middleware changes the
  restoring update (the restoration is an ordinary \<open>setState\<close>). What holds: with
  \<open>maxSnapshots\<close> at least 2 and middleware that pass their \<open>nextState\<close> through,
  \<open>takeSnapshot(); setState(u); takeSnapshot(); undo()\<close> makes the state object captured
  by the first snapshot the current state, with the fields the state had before, and a
  following \<open>redo()\<close> makes the object captured by the second snapshot the current state,
  with the fields of the state after \<open>setState(u)\<close>. The restoring update calls every
  middleware and, when it returns normally, has notified every listener.
\<close>

theorem undo_redo_round_trip:
  assumes max2: "2 \<le> maxSnapshots m"
    and mw: "\<forall>x\<in>set (middleware st). passes_through x"
    and t1: "takeSnapshot now1 d1 st h m = (h1, m1)"
    and mut: "setState L st h1 u = (out, st2, h2, tr)"
    and t2: "takeSnapshot now2 d2 st2 h2 m1 = (h3, m2)"
    and un: "undo L st2 h3 m2 = (out3, st3, h4, m3, tr3)"
    and re: "redo L st3 h4 m3 = (out4, st4, h5, m4, tr4)"
  shows "getState st3 = snapshot_state (last (snapshots m1))
       \<and> deref h4 (getState st3) = deref h (getState st)
       \<and> getState st4 = snapshot_state (last (snapshots m2))
       \<and> deref h5 (getState st4) = deref h2 (getState st2)
       \<and> length (middleware_calls tr3) = length (middleware st)
       \<and> (out3 = None \<longrightarrow> notified tr3 = listeners st)"
proof -
  let ?A = "\<lparr>snapshot_state = length h, timestamp = now1, description = d1\<rparr>"
  let ?B = "\<lparr>snapshot_state = length h2, timestamp = now2, description = d2\<rparr>"
  let ?n = "length (snapshots m2)"
  from max2 have max1: "1 \<le> maxSnapshots m" by simp
  from takeSnapshot_appends [OF t1 max1]
  have h1: "h1 = h @ [deref h (state st)]" and ne1: "snapshots m1 \<noteq> []"
    and lastA: "last (snapshots m1) = ?A"
    and end1: "currentIndex m1 = int (length (snapshots m1)) - 1"
    and max_m1: "maxSnapshots m1 = maxSnapshots m" by simp_all
  from setState_fields [OF mut] have f2: "listeners st2 = listeners st" "middleware st2 = middleware st"
    by simp_all
  from setState_ext [OF mut] obtain e2 where h2: "h2 = h1 @ e2" by auto
  from max_m1 max2 have max2': "2 \<le> maxSnapshots m1" and max1': "1 \<le> maxSnapshots m1"
    by simp_all
  from takeSnapshot_at_end [OF t2 max2' ne1 end1] lastA
  have n2: "2 \<le> ?n" and atA: "snapshots m2 ! (?n - 2) = ?A"
    and atB: "snapshots m2 ! (?n - 1) = ?B" by simp_all
  from takeSnapshot_appends [OF t2 max1']
  have h3: "h3 = h2 @ [deref h2 (state st2)]" and lastB: "last (snapshots m2) = ?B"
    and end2: "currentIndex m2 = int ?n - 1" by simp_all
  \<comment> \<open>undo\<close>
  from end2 n2 have "canUndo m2" by (simp add: canUndo_def)
  with un end2 have ap1: "applySnapshot L (int ?n - 2) st2 h3 m2 = (out3, st3, h4, m3, tr3)"
    by (simp add: undo_def)
  from n2 have i1: "0 \<le> int ?n - 2" "int ?n - 2 < int ?n" and nat1: "nat (int ?n - 2) = ?n - 2"
    by simp_all
  from mw f2 have mw2: "\<forall>x\<in>set (middleware st2). passes_through x" by simp
  from applySnapshot_restores [OF ap1 i1 mw2] nat1 atA f2
  have st3: "getState st3 = length h" and m3: "m3 = m2\<lparr>currentIndex := int ?n - 2\<rparr>"
    and f3: "middleware st3 = middleware st" "listeners st3 = listeners st"
    and calls3: "length (middleware_calls tr3) = length (middleware st)"
       "out3 = None \<longrightarrow> notified tr3 = listeners st"
    by simp_all
  from applySnapshot_restores [OF ap1 i1 mw2] obtain e4 where h4: "h4 = h3 @ e4" by auto
  have d4: "deref h4 (length h) = deref h (state st)"
    unfolding h4 h3 h2 h1 by (simp add: deref_def nth_append)
  \<comment> \<open>redo\<close>
  from m3 n2 have "canRedo m3" by (simp add: canRedo_def)
  with re m3 have ap2: "applySnapshot L (int ?n - 1) st3 h4 m3 = (out4, st4, h5, m4, tr4)"
    by (simp add: redo_def)
  from n2 m3 have i2: "0 \<le> int ?n - 1" "int ?n - 1 < int (length (snapshots m3))"
    and nat2: "nat (int ?n - 1) = ?n - 1" by auto
  from mw f3 have mw3: "\<forall>x\<in>set (middleware st3). passes_through x" by simp
  from applySnapshot_restores [OF ap2 i2 mw3] nat2 atB m3
  have st4: "getState st4 = length h2" by simp
  from applySnapshot_restores [OF ap2 i2 mw3] obtain e5 where h5: "h5 = h4 @ e5" by auto
  have d5: "deref h5 (length h2) = deref h2 (state st2)"
    unfolding h5 h4 h3 by (simp add: deref_def nth_append)
  from st3 d4 st4 d5 calls3 lastA lastB show ?thesis
    by (simp add: getState_def)
qed

lemma managed_eq:
  "managed mws maxS =
     (\<lparr>state = 1, listeners = [7], middleware = mws\<rparr>,
      [count_is 0, count_is 0, count_is 0],
      if 1 > maxS
      then \<lparr>snapshots = [], currentIndex = - 1, maxSnapshots = maxS\<rparr>
      else \<lparr>snapshots = [\<lparr>snapshot_state = 2, timestamp = 0,
                             description = Some ''Initial state''\<rparr>],
            currentIndex = 0, maxSnapshots = maxS\<rparr>)"
  by (simp add: managed_def createSnapshotManager_def takeSnapshot_def eval_simps)

lemmas snapshot_simps = managed_eq round_trip_def current_state_def takeSnapshot_def
  applySnapshot_def undo_def redo_def canUndo_def canRedo_def slice0_def

theorem undo_redo_round_trip_witness:
  "current_state (round_trip quiet (UObject (count_is 1)) (managed [pass_mw] 2)) = count_is 0
   \<and> current_state (exec quiet Redo (round_trip quiet (UObject (count_is 1)) (managed [pass_mw] 2)))
       = count_is 0 ++ count_is 1
   \<and> 2 \<le> maxSnapshots (snd (snd (managed [pass_mw] 2)))
   \<and> passes_through pass_mw"
proof -
  define st where "st = fst (managed [pass_mw] 2)"
  define h where "h = fst (snd (managed [pass_mw] 2))"
  define m where "m = snd (snd (managed [pass_mw] 2))"
  define X1 where "X1 = takeSnapshot 1 None st h m"
  define R where "R = setState quiet st (fst X1) (UObject (count_is 1))"
  define X2 where "X2 = takeSnapshot 2 None (store_after R) (heap_after R) (snd X1)"
  define U where "U = undo quiet (store_after R) (fst X2) (snd X2)"
  define V where "V = redo quiet (fst (snd U)) (fst (snd (snd U))) (fst (snd (snd (snd U))))"
  have max2: "2 \<le> maxSnapshots m"
    by (simp add: m_def managed_eq)
  have pt: "passes_through pass_mw"
    by (simp add: passes_through_def pass_mw_def)
  then have mw: "\<forall>x\<in>set (middleware st). passes_through x"
    by (simp add: st_def managed_eq)
  have t1: "takeSnapshot 1 None st h m = (fst X1, snd X1)"
    by (simp add: X1_def)
  have mut: "setState quiet st (fst X1) (UObject (count_is 1))
               = (outcome R, store_after R, heap_after R, calls R)"
    unfolding R_def [symmetric] by (rule result_collapse)
  have t2: "takeSnapshot 2 None (store_after R) (heap_after R) (snd X1) = (fst X2, snd X2)"
    by (simp add: X2_def)
  have un: "undo quiet (store_after R) (fst X2) (snd X2)
              = (fst U, fst (snd U), fst (snd (snd U)), fst (snd (snd (snd U))),
                 snd (snd (snd (snd U))))"
    by (simp add: U_def)
  have re: "redo quiet (fst (snd U)) (fst (snd (snd U))) (fst (snd (snd (snd U))))
              = (fst V, fst (snd V), fst (snd (snd V)), fst (snd (snd (snd V))),
                 snd (snd (snd (snd V))))"
    by (simp add: V_def)
  note T = undo_redo_round_trip [OF max2 mw t1 mut t2 un re]
  have start: "managed [pass_mw] 2 = (st, h, m)"
    by (simp add: st_def h_def m_def)
  have s1: "exec quiet (TakeSnapshot 1 None) (st, h, m) = (st, fst X1, snd X1)"
    by (simp only: exec.simps X1_def split_beta)
  have s2: "exec quiet (SetState (UObject (count_is 1))) (st, fst X1, snd X1)
              = (store_after R, heap_after R, snd X1)"
    by (simp only: exec.simps R_def split_beta store_after_def heap_after_def)
  have s3: "exec quiet (TakeSnapshot 2 None) (store_after R, heap_after R, snd X1)
              = (store_after R, fst X2, snd X2)"
    by (simp only: exec.simps X2_def split_beta)
  have s4: "exec quiet Undo (store_after R, fst X2, snd X2)
              = (fst (snd U), fst (snd (snd U)), fst (snd (snd (snd U))))"
    by (simp only: exec.simps U_def split_beta)
  have rt: "round_trip quiet (UObject (count_is 1)) (managed [pass_mw] 2)
              = (fst (snd U), fst (snd (snd U)), fst (snd (snd (snd U))))"
    unfolding start round_trip_def
    by (simp only: fold_simps comp_apply id_apply s1 s2 s3 s4)
  from T have c1: "deref (fst (snd (snd U))) (getState (fst (snd U))) = deref h (getState st)"
    and c2: "deref (fst (snd (snd V))) (getState (fst (snd V)))
               = deref (heap_after R) (getState (store_after R))"
    by blast+
  have s5: "exec quiet Redo (fst (snd U), fst (snd (snd U)), fst (snd (snd (snd U))))
              = (fst (snd V), fst (snd (snd V)), fst (snd (snd (snd V))))"
    by (simp only: exec.simps V_def split_beta)
  have "current_state (round_trip quiet (UObject (count_is 1)) (managed [pass_mw] 2))
          = deref h (getState st)"
    by (simp only: rt current_state_def prod.case c1)
  moreover have "current_state (exec quiet Redo
                    (round_trip quiet (UObject (count_is 1)) (managed [pass_mw] 2)))
          = deref (heap_after R) (getState (store_after R))"
    by (simp only: rt s5 current_state_def prod.case c2)
  moreover have "deref h (getState st) = count_is 0"
    by (simp add: h_def st_def managed_eq eval_simps)
  moreover have "deref (heap_after R) (getState (store_after R)) = count_is 0 ++ count_is 1"
    by (simp add: R_def X1_def h_def st_def m_def snapshot_simps eval_simps)
  ultimately show ?thesis using max2 pt by (simp add: m_def)
qed

theorem undo_redo_round_trip_counterexample:
  "current_state (round_trip quiet (UObject (count_is 1)) (managed [] 1)) ''count''
     = Some (VNumber 1)
   \<and> current_state (round_trip quiet (UObject (count_is 1)) (managed [stamp_mw] 5)) ''stamped''
     = Some (VBoolean True)
   \<and> deref (fst (snd (managed [stamp_mw] 5))) (getState (fst (managed [stamp_mw] 5))) ''stamped''
     = None"
  by (simp add: snapshot_simps eval_simps)

section \<open>Claims about memoized selectors\<close>



lemma shallowEqual_examples:
  "shallowEqual [abc 1 2, abc 1 2, abc 1 3] (VRef 0) (VRef 1)
   \<and> \<not> shallowEqual [abc 1 2, abc 1 2, abc 1 3] (VRef 0) (VRef 2)
   \<and> \<not> shallowEqual abc_heap (VRef 0) (VRef 1)
   \<and> \<not> shallowEqual abc_heap (VNumber 1) (VNumber 2)
   \<and> \<not> shallowEqual abc_heap VNull (VRef 0)"
  by (simp add: shallowEqual_def deref_def abc_def abc_heap_def)

text \<open>
  \<open>createSelector\<close> does not memoize on dependency selectors: as the code stands every
  call raises a reference error, and were \<open>selector\<close> bound, the selector would return
  its first defined result for ever, since \<open>deps\<close> is compared with itself.
\<close>

lemma createSelector_unbound:
  "createSelector None selectorFn equalityFn deps (createSelector_init deps) h s
     = Inl (ReferenceError ''selector'')"
  by (simp add: createSelector_def createSelector_init_def)

lemma depsChanged_same: "\<not> depsChanged deps deps"
  by (simp add: depsChanged_def list_ex_iff)

lemma createSelector_stale:
  assumes "createSelector (Some g) selectorFn equalityFn deps (createSelector_init deps) h0 s0
             = Inr (r0, c0)"
    and "r0 \<noteq> VUndefined"
  shows "createSelector (Some g) selectorFn equalityFn deps c0 h1 s1 = Inr (r0, c0)"
  using assms
  by (auto simp: createSelector_def createSelector_init_def Let_def depsChanged_same)




end
